theory Spec2Isabelle
  imports Complex_Main "HOL-Library.Sublist"
begin

section \<open>Route time projection (\<^verbatim>\<open>bus_timetable_test.py\<close>)\<close>

text \<open>
  The model follows \<^verbatim>\<open>BusTimetableAnalyzer\<close>. Stop names and timetable entries are
  strings, as in the two parallel lists \<^verbatim>\<open>STOPS\<close> and \<^verbatim>\<open>TIMETABLE\<close>. Python's numbers
  (the integer minutes of the timetable and the quotient \<^verbatim>\<open>duration / 60\<close>) are modelled
  by exact rationals. Exceptions are values of type \<open>error\<close>. Printing and
  \<^verbatim>\<open>time.sleep\<close> are not modelled.
\<close>

datatype error = IndexError | ValueError

subsection \<open>Clock times: \<^verbatim>\<open>parse_time\<close>, \<^verbatim>\<open>time_to_minutes\<close>, \<^verbatim>\<open>minutes_to_time_str\<close>\<close>

record time =
  hour :: nat
  minute :: nat

definition digit_of :: "char \<Rightarrow> nat option" where
  "digit_of c =
     map_of [(CHR ''0'', 0), (CHR ''1'', 1), (CHR ''2'', 2), (CHR ''3'', 3), (CHR ''4'', 4),
             (CHR ''5'', 5), (CHR ''6'', 6), (CHR ''7'', 7), (CHR ''8'', 8), (CHR ''9'', 9)] c"

definition digit_char :: "nat \<Rightarrow> char" where
  "digit_char d = ''0123456789'' ! d"

text \<open>
  \<^verbatim>\<open>datetime.strptime(s, "%H:%M")\<close> matches the regular expression
  \<^verbatim>\<open>(2[0-3]|[0-1]\d|\d):([0-5]\d|\d)\<close> at the start of \<open>s\<close> and raises ValueError
  when there is no match or when characters remain after it. \<open>match_H\<close> and
  \<open>match_M\<close> are the two groups, alternatives tried in the order written. (Only ASCII
  digits are modelled.)
\<close>

fun match_H :: "string \<Rightarrow> (nat \<times> string) option" where
  "match_H [] = None"
| "match_H [c] = (case digit_of c of None \<Rightarrow> None | Some d \<Rightarrow> Some (d, []))"
| "match_H (c1 # c2 # cs) =
     (case digit_of c1 of
        None \<Rightarrow> None
      | Some d1 \<Rightarrow>
          (case digit_of c2 of
             None \<Rightarrow> Some (d1, c2 # cs)
           | Some d2 \<Rightarrow>
               if 10 * d1 + d2 \<le> 23 then Some (10 * d1 + d2, cs)
               else Some (d1, c2 # cs)))"

fun match_M :: "string \<Rightarrow> (nat \<times> string) option" where
  "match_M [] = None"
| "match_M [c] = (case digit_of c of None \<Rightarrow> None | Some d \<Rightarrow> Some (d, []))"
| "match_M (c1 # c2 # cs) =
     (case digit_of c1 of
        None \<Rightarrow> None
      | Some d1 \<Rightarrow>
          (case digit_of c2 of
             None \<Rightarrow> Some (d1, c2 # cs)
           | Some d2 \<Rightarrow>
               if d1 \<le> 5 then Some (10 * d1 + d2, cs)
               else Some (d1, c2 # cs)))"

definition parse_time :: "string \<Rightarrow> error + time" where
  "parse_time time_str =
     (case match_H time_str of
        None \<Rightarrow> Inl ValueError
      | Some (h, rest) \<Rightarrow>
          (case rest of
             [] \<Rightarrow> Inl ValueError
           | c # rest' \<Rightarrow>
               if c \<noteq> CHR '':'' then Inl ValueError
               else (case match_M rest' of
                       None \<Rightarrow> Inl ValueError
                     | Some (m, left) \<Rightarrow>
                         if left = [] then Inr \<lparr>hour = h, minute = m\<rparr>
                         else Inl ValueError)))"

definition time_to_minutes :: "time \<Rightarrow> int" where
  "time_to_minutes time_obj = int (hour time_obj * 60 + minute time_obj)"

text \<open>Decimal digits of a natural number, and the format specification \<^verbatim>\<open>:02d\<close>.\<close>

fun dec :: "nat \<Rightarrow> string" where
  "dec n = (if n < 10 then [digit_char n] else dec (n div 10) @ [digit_char (n mod 10)])"

declare dec.simps [simp del]

definition fmt_02d :: "int \<Rightarrow> string" where
  "fmt_02d n =
     (if n < 0 then CHR ''-'' # dec (nat (- n))
      else (let ds = dec (nat n) in if length ds < 2 then CHR ''0'' # ds else ds))"

text \<open>
  \<^verbatim>\<open>hours = int(minutes // 60)\<close>, \<^verbatim>\<open>mins = int(minutes % 60)\<close>: floor division and the
  remainder with the sign of the divisor, then truncation of a value in \<open>[0, 60)\<close>.
\<close>

definition minutes_to_time_str :: "rat \<Rightarrow> string" where
  "minutes_to_time_str minutes =
     (let hours = \<lfloor>minutes / 60\<rfloor>;
          mins = \<lfloor>minutes - 60 * of_int \<lfloor>minutes / 60\<rfloor>\<rfloor>
      in fmt_02d hours @ '':'' @ fmt_02d mins)"

subsection \<open>The directions lookup: \<^verbatim>\<open>get_travel_time\<close>\<close>

text \<open>
  The answer of \<^verbatim>\<open>gmaps.directions\<close>: the call raises (transport error), or returns
  a list of routes. Of each route only
  \<^verbatim>\<open>['legs'][0]['duration_in_traffic']['value']\<close> is read: \<open>Some\<close> seconds, or
  \<open>None\<close> when that access raises (malformed response). The client is a function of
  the number of calls made before (the answer depends on \<^verbatim>\<open>datetime.now()\<close> and on the
  traffic), the origin and the destination.
\<close>

datatype directions_result = Raised | Routes "int option list"

type_synonym gmaps = "nat \<Rightarrow> string \<Rightarrow> string \<Rightarrow> directions_result"

definition get_travel_time :: "gmaps \<Rightarrow> nat \<Rightarrow> string \<Rightarrow> string \<Rightarrow> rat option" where
  "get_travel_time directions now origin destination =
     (case directions now origin destination of
        Raised \<Rightarrow> None
      | Routes [] \<Rightarrow> None
      | Routes (None # _) \<Rightarrow> None
      | Routes (Some duration # _) \<Rightarrow> Some (of_int duration / 60))"

subsection \<open>The projection: \<^verbatim>\<open>predict_route_times\<close>\<close>

text \<open>
  A row of the result. The column \<^verbatim>\<open>Extra Traffic (min)\<close> holds a number or the
  string \<^verbatim>\<open>"-"\<close>.
\<close>

datatype cell = Num rat | Text string

record row =
  Stop :: string
  Timetable :: string
  Extra_Traffic :: cell
  Predicted_Arrival :: string

text \<open>One lookup, as logged: the index of the entry being processed, origin, destination, answer.\<close>

record lookup_call =
  entry :: nat
  origin :: string
  destination :: string
  answer :: "rat option"

text \<open>
  The local variables of \<^verbatim>\<open>predict_route_times\<close> that the loop updates, and the log of the
  lookups made so far.
\<close>

record proj_state =
  results :: "row list"
  last_used_stop :: string
  last_used_time :: rat
  calls :: "lookup_call list"

text \<open>Python's \<^verbatim>\<open>round(x, 1)\<close>: nearest multiple of one tenth, ties to the even one.\<close>

definition round_half_even :: "rat \<Rightarrow> int" where
  "round_half_even x =
     (let f = \<lfloor>x\<rfloor>; d = x - of_int f
      in if d < 1 / 2 then f else if 1 / 2 < d then f + 1
         else if even f then f else f + 1)"

definition round1 :: "rat \<Rightarrow> rat" where
  "round1 x = of_int (round_half_even (x * 10)) / 10"

text \<open>
  The inner loop \<^verbatim>\<open>for j in range(i-1, -1, -1)\<close>: the scheduled minutes of the nearest
  entry before \<open>i\<close> that is not \<^verbatim>\<open>"x"\<close>, or \<open>None\<close>.
\<close>

fun last_scheduled_time :: "string list \<Rightarrow> nat \<Rightarrow> error + int option" where
  "last_scheduled_time timetable 0 = Inr None"
| "last_scheduled_time timetable (Suc j) =
     (if length timetable \<le> j then Inl IndexError
      else if timetable ! j \<noteq> ''x'' then
        (case parse_time (timetable ! j) of
           Inl e \<Rightarrow> Inl e
         | Inr t \<Rightarrow> Inr (Some (time_to_minutes t)))
      else last_scheduled_time timetable j)"

text \<open>The body of the loop \<^verbatim>\<open>for i in range(1, len(stops))\<close>, for an \<open>i < len(stops)\<close>.\<close>

definition body :: "gmaps \<Rightarrow> string list \<Rightarrow> string list \<Rightarrow> nat \<Rightarrow> proj_state \<Rightarrow> error + proj_state" where
  "body directions stops timetable i s =
     (if length timetable \<le> i then Inl IndexError
      else
        let current_stop = stops ! i; scheduled_time = timetable ! i in
        if scheduled_time \<noteq> ''x'' then
          (let travel_time =
                 get_travel_time directions (length (calls s)) (last_used_stop s) current_stop;
               s1 = s\<lparr>calls := calls s @
                      [\<lparr>entry = i, origin = last_used_stop s, destination = current_stop,
                        answer = travel_time\<rparr>]\<rparr>
           in case travel_time of
                None \<Rightarrow> Inr s1
              | Some travel \<Rightarrow>
                  (let predicted_time = last_used_time s + travel in
                   case parse_time scheduled_time of
                     Inl e \<Rightarrow> Inl e
                   | Inr scheduled_time_obj \<Rightarrow>
                       (let scheduled_time_minutes = time_to_minutes scheduled_time_obj;
                            actual_arrival = max predicted_time (of_int scheduled_time_minutes)
                        in case last_scheduled_time timetable i of
                             Inl e \<Rightarrow> Inl e
                           | Inr last_scheduled \<Rightarrow>
                               (let extra_traffic =
                                      (case last_scheduled of
                                         Some l \<Rightarrow>
                                           max 0 ((actual_arrival - last_used_time s)
                                                  - of_int (scheduled_time_minutes - l))
                                       | None \<Rightarrow> 0)
                                in Inr (s1\<lparr>results := results s1 @
                                             [\<lparr>Stop = current_stop, Timetable = scheduled_time,
                                               Extra_Traffic = Num (round1 extra_traffic),
                                               Predicted_Arrival =
                                                 minutes_to_time_str actual_arrival\<rparr>],
                                           last_used_stop := current_stop,
                                           last_used_time := actual_arrival\<rparr>)))))
        else
          Inr (s\<lparr>results := results s @
                   [\<lparr>Stop = current_stop, Timetable = ''-'', Extra_Traffic = Text ''-'',
                     Predicted_Arrival = ''-''\<rparr>]\<rparr>))"

text \<open>
  The loop over the entries \<open>i, i + 1, ..., n - 1\<close>; an exception in the body ends it.
  \<^verbatim>\<open>predict_route_times\<close> runs it from 1 to \<^verbatim>\<open>len(stops)\<close>.
\<close>

function loop :: "gmaps \<Rightarrow> string list \<Rightarrow> string list \<Rightarrow> nat \<Rightarrow> nat \<Rightarrow> proj_state \<Rightarrow> error + proj_state" where
  "loop directions stops timetable i n s =
     (if i < n then
        (case body directions stops timetable i s of
           Inl e \<Rightarrow> Inl e
         | Inr s' \<Rightarrow> loop directions stops timetable (Suc i) n s')
      else Inr s)"
  by pat_completeness auto
termination
  by (relation "measure (\<lambda>(directions, stops, timetable, i, n, s). n - i)") auto

declare loop.simps [simp del]

text \<open>The state before the loop: the first stop is the anchor.\<close>

definition start :: "string list \<Rightarrow> string list \<Rightarrow> error + proj_state" where
  "start stops timetable =
     (if stops = [] then Inl IndexError
      else if timetable = [] then Inl IndexError
      else (case parse_time (timetable ! 0) of
              Inl e \<Rightarrow> Inl e
            | Inr t \<Rightarrow>
                Inr \<lparr>results = [\<lparr>Stop = stops ! 0, Timetable = timetable ! 0,
                                 Extra_Traffic = Num 0, Predicted_Arrival = timetable ! 0\<rparr>],
                     last_used_stop = stops ! 0,
                     last_used_time = of_int (time_to_minutes t),
                     calls = []\<rparr>))"

text \<open>The whole run, with the final state; \<^verbatim>\<open>predict_route_times\<close> returns its rows.\<close>

definition predict_route_run :: "gmaps \<Rightarrow> string list \<Rightarrow> string list \<Rightarrow> error + proj_state" where
  "predict_route_run directions stops timetable =
     (case start stops timetable of
        Inl e \<Rightarrow> Inl e
      | Inr s \<Rightarrow> loop directions stops timetable 1 (length stops) s)"

definition predict_route_times :: "gmaps \<Rightarrow> string list \<Rightarrow> string list \<Rightarrow> error + row list" where
  "predict_route_times directions stops timetable =
     (case predict_route_run directions stops timetable of
        Inl e \<Rightarrow> Inl e
      | Inr s \<Rightarrow> Inr (results s))"

subsection \<open>Well-formed routes and reading a rendered time\<close>

text \<open>
  The input constraint of the projection: there is a first stop, every stop has a timetable
  entry, every entry is \<^verbatim>\<open>"x"\<close> or a time that \<^verbatim>\<open>parse_time\<close> accepts, and the first
  entry is a time.
\<close>

definition valid_entry :: "string \<Rightarrow> bool" where
  "valid_entry t = (t = ''x'' \<or> (case parse_time t of Inl e \<Rightarrow> False | Inr v \<Rightarrow> True))"

definition route_ok :: "string list \<Rightarrow> string list \<Rightarrow> bool" where
  "route_ok stops timetable =
     (stops \<noteq> [] \<and> length stops \<le> length timetable \<and>
      list_all valid_entry (take (length stops) timetable) \<and> timetable ! 0 \<noteq> ''x'')"

text \<open>
  Reading the minutes since midnight back from a string \<^verbatim>\<open>H:M\<close>, to state properties
  of the column \<^verbatim>\<open>Predicted Arrival\<close>: the decimal number before the colon times 60,
  plus the decimal number after it.
\<close>

definition digit_value :: "char \<Rightarrow> nat" where
  "digit_value c = (case digit_of c of Some d \<Rightarrow> d | None \<Rightarrow> 0)"

definition read_dec :: "string \<Rightarrow> nat" where
  "read_dec cs = foldl (\<lambda>a c. 10 * a + digit_value c) 0 cs"

definition clock_minutes :: "string \<Rightarrow> int" where
  "clock_minutes s =
     int (read_dec (takeWhile (\<lambda>c. c \<noteq> CHR '':'') s) * 60
          + read_dec (drop 1 (dropWhile (\<lambda>c. c \<noteq> CHR '':'') s)))"

text \<open>
  To state which rows a run returns: the entries at which a logged lookup gave no result, the
  stop and timetable columns of a row, and the columns expected for entry \<open>i\<close>.
\<close>

definition failed_entries :: "lookup_call list \<Rightarrow> nat list" where
  "failed_entries cs = map entry (filter (\<lambda>c. answer c = None) cs)"

definition row_key :: "row \<Rightarrow> string \<times> string" where
  "row_key r = (Stop r, Timetable r)"

definition entry_key :: "string list \<Rightarrow> string list \<Rightarrow> nat \<Rightarrow> string \<times> string" where
  "entry_key stops timetable i =
     (stops ! i, if timetable ! i = ''x'' then ''-'' else timetable ! i)"


text \<open>
  The rows of served entries are those whose timetable column is not \<^verbatim>\<open>"-"\<close> (the filter
  of \<^verbatim>\<open>main\<close>); \<open>predicted_minutes\<close> reads their predicted arrivals in minutes, in order.
\<close>

definition served_row :: "row \<Rightarrow> bool" where
  "served_row r = (Timetable r \<noteq> ''-'')"

definition predicted_minutes :: "row list \<Rightarrow> int list" where
  "predicted_minutes rs = map (\<lambda>r. clock_minutes (Predicted_Arrival r)) (filter served_row rs)"

section \<open>Stop extraction (\<^verbatim>\<open>extract_stops.py\<close>)\<close>




























section \<open>Properties of the projection\<close>

subsection \<open>The loop and its body, case by case\<close>

lemma loop_step:
  "i < n \<Longrightarrow> loop d st tt i n s =
     (case body d st tt i s of Inl e \<Rightarrow> Inl e | Inr s' \<Rightarrow> loop d st tt (Suc i) n s')"
  by (subst loop.simps) simp

lemma loop_done: "\<not> i < n \<Longrightarrow> loop d st tt i n s = Inr s"
  by (subst loop.simps) simp

lemma body_unserved:
  assumes "i < length tt" and "tt ! i = ''x''"
  shows "body d st tt i s =
     Inr (s\<lparr>results := results s @
            [\<lparr>Stop = st ! i, Timetable = ''-'', Extra_Traffic = Text ''-'',
              Predicted_Arrival = ''-''\<rparr>]\<rparr>)"
  using assms by (simp add: body_def)

lemma body_failed:
  assumes "i < length tt" and "tt ! i \<noteq> ''x''"
    and "get_travel_time d (length (calls s)) (last_used_stop s) (st ! i) = None"
  shows "body d st tt i s =
     Inr (s\<lparr>calls := calls s @
            [\<lparr>entry = i, origin = last_used_stop s, destination = st ! i, answer = None\<rparr>]\<rparr>)"
  using assms by (simp add: body_def)

lemma body_served:
  assumes "i < length tt" and "tt ! i \<noteq> ''x''"
    and "get_travel_time d (length (calls s)) (last_used_stop s) (st ! i) = Some travel"
    and "parse_time (tt ! i) = Inr t"
    and "last_scheduled_time tt i = Inr lst"
  shows "body d st tt i s =
     Inr (s\<lparr>calls := calls s @
              [\<lparr>entry = i, origin = last_used_stop s, destination = st ! i,
                answer = Some travel\<rparr>],
            results := results s @
              [\<lparr>Stop = st ! i, Timetable = tt ! i,
                Extra_Traffic = Num (round1
                  (case lst of
                     Some l \<Rightarrow> max 0 ((max (last_used_time s + travel) (of_int (time_to_minutes t))
                                       - last_used_time s) - of_int (time_to_minutes t - l))
                   | None \<Rightarrow> 0)),
                Predicted_Arrival =
                  minutes_to_time_str (max (last_used_time s + travel) (of_int (time_to_minutes t)))\<rparr>],
            last_used_stop := st ! i,
            last_used_time := max (last_used_time s + travel) (of_int (time_to_minutes t))\<rparr>)"
  using assms by (simp add: body_def Let_def)

lemma route_ok_valid:
  assumes "route_ok st tt" and "i < length st"
  shows "i < length tt \<and> valid_entry (tt ! i)"
  using assms by (auto simp: route_ok_def list_all_length)

lemma route_ok_parse:
  assumes "route_ok st tt" and "i < length st" and "tt ! i \<noteq> ''x''"
  shows "\<exists>t. parse_time (tt ! i) = Inr t"
  using route_ok_valid [OF assms(1,2)] assms(3)
  by (auto simp: valid_entry_def split: sum.splits)



subsection \<open>Parsing and rendering clock times\<close>

lemma digit_of_digit_char: "d < 10 \<Longrightarrow> digit_of (digit_char d) = Some d"
proof -
  assume "d < 10"
  then have "d \<in> {0, 1, 2, 3, 4, 5, 6, 7, 8, 9}" by auto
  then show ?thesis by (auto simp: digit_of_def digit_char_def)
qed

lemma digit_of_SomeD: "digit_of c = Some d \<Longrightarrow> d \<le> 9 \<and> c \<noteq> CHR '':''"
  by (auto simp: digit_of_def split: if_splits)


lemma dec_small: "n < 10 \<Longrightarrow> dec n = [digit_char n]"
  by (subst dec.simps) simp

lemma dec_large: "\<not> n < 10 \<Longrightarrow> dec n = dec (n div 10) @ [digit_char (n mod 10)]"
  by (subst dec.simps) simp

lemma read_dec_snoc: "read_dec (cs @ [c]) = 10 * read_dec cs + digit_value c"
  by (simp add: read_dec_def)

lemma read_dec_dec: "read_dec (dec n) = n"
proof (induction n rule: dec.induct)
  case (1 n)
  show ?case
  proof (cases "n < 10")
    case True
    then show ?thesis
      by (simp add: dec_small read_dec_def digit_value_def digit_of_digit_char)
  next
    case False
    then have "read_dec (dec (n div 10)) = n div 10" using 1 by simp
    with False show ?thesis
      by (simp add: dec_large read_dec_snoc digit_value_def digit_of_digit_char)
  qed
qed

lemma dec_no_colon: "CHR '':'' \<notin> set (dec n)"
proof (induction n rule: dec.induct)
  case (1 n)
  have d: "digit_char (n mod 10) \<noteq> CHR '':''"
    using digit_of_digit_char [of "n mod 10"] digit_of_SomeD by force
  show ?case
  proof (cases "n < 10")
    case True
    with d show ?thesis by (simp add: dec_small)
  next
    case False
    with 1 d show ?thesis by (simp add: dec_large)
  qed
qed

lemma read_dec_zero: "read_dec (CHR ''0'' # cs) = read_dec cs"
  by (simp add: read_dec_def digit_value_def digit_of_def)

lemma fmt_02d_nonneg:
  assumes "0 \<le> n"
  shows "read_dec (fmt_02d n) = nat n" and "CHR '':'' \<notin> set (fmt_02d n)"
  using assms dec_no_colon [of "nat n"]
  by (auto simp: fmt_02d_def Let_def read_dec_zero read_dec_dec)

lemma clock_minutes_join:
  assumes "CHR '':'' \<notin> set hs"
  shows "clock_minutes (hs @ '':'' @ ms) = int (read_dec hs * 60 + read_dec ms)"
proof -
  have "takeWhile (\<lambda>c. c \<noteq> CHR '':'') (hs @ CHR '':'' # ms) = hs"
    using assms by (induction hs) auto
  moreover have "dropWhile (\<lambda>c. c \<noteq> CHR '':'') (hs @ CHR '':'' # ms) = CHR '':'' # ms"
    using assms by (induction hs) auto
  ultimately show ?thesis by (simp add: clock_minutes_def)
qed

lemma clock_minutes_render:
  assumes "0 \<le> m"
  shows "clock_minutes (minutes_to_time_str m) = \<lfloor>m\<rfloor>"
proof -
  define H where "H = \<lfloor>m / 60\<rfloor>"
  define M where "M = \<lfloor>m - 60 * of_int H\<rfloor>"
  have H0: "0 \<le> H" using assms by (simp add: H_def)
  have "60 * of_int H = (of_int (60 * H) :: rat)" by simp
  then have M: "M = \<lfloor>m\<rfloor> - 60 * H"
    unfolding M_def by (metis floor_diff_of_int)
  have "of_int H \<le> m / 60" unfolding H_def by (rule of_int_floor_le)
  then have "of_int (60 * H) \<le> m" by simp
  then have "60 * H \<le> \<lfloor>m\<rfloor>" by (simp only: le_floor_iff)
  with M have M0: "0 \<le> M" by simp
  have "minutes_to_time_str m = fmt_02d H @ '':'' @ fmt_02d M"
    by (simp add: minutes_to_time_str_def H_def M_def Let_def)
  then have "clock_minutes (minutes_to_time_str m) = int (nat H * 60 + nat M)"
    using fmt_02d_nonneg [OF H0] fmt_02d_nonneg [OF M0] clock_minutes_join by simp
  also have "\<dots> = \<lfloor>m\<rfloor>" using H0 M0 M by simp
  finally show ?thesis .
qed

lemma match_H_SomeD:
  assumes "match_H s = Some (h, rest)"
  shows "\<exists>hs. s = hs @ rest \<and> CHR '':'' \<notin> set hs \<and> read_dec hs = h \<and> h \<le> 23"
proof (cases s rule: match_H.cases)
  case 1
  with assms show ?thesis by simp
next
  case (2 c)
  with assms obtain d where "digit_of c = Some d" "h = d" "rest = []"
    by (auto split: option.splits)
  with 2 digit_of_SomeD [of c d] show ?thesis
    by (intro exI [of _ "[c]"]) (auto simp: read_dec_def digit_value_def)
next
  case (3 c1 c2 cs)
  with assms obtain d1 where d1: "digit_of c1 = Some d1"
    by (auto split: option.splits)
  note b1 = digit_of_SomeD [OF d1]
  show ?thesis
  proof (cases "digit_of c2")
    case None
    with assms 3 d1 have "h = d1" "rest = c2 # cs" by auto
    with 3 d1 b1 show ?thesis
      by (intro exI [of _ "[c1]"]) (auto simp: read_dec_def digit_value_def)
  next
    case (Some d2)
    note b2 = digit_of_SomeD [OF Some]
    show ?thesis
    proof (cases "10 * d1 + d2 \<le> 23")
      case True
      with assms 3 d1 Some have "h = 10 * d1 + d2" "rest = cs" by auto
      with 3 d1 Some b1 b2 True show ?thesis
        by (intro exI [of _ "[c1, c2]"]) (auto simp: read_dec_def digit_value_def)
    next
      case False
      with assms 3 d1 Some have "h = d1" "rest = c2 # cs" by auto
      with 3 d1 b1 show ?thesis
        by (intro exI [of _ "[c1]"]) (auto simp: read_dec_def digit_value_def)
    qed
  qed
qed

lemma match_M_SomeD:
  assumes "match_M s = Some (m, rest)"
  shows "\<exists>ms. s = ms @ rest \<and> read_dec ms = m \<and> m \<le> 59"
proof (cases s rule: match_M.cases)
  case 1
  with assms show ?thesis by simp
next
  case (2 c)
  with assms obtain d where "digit_of c = Some d" "m = d" "rest = []"
    by (auto split: option.splits)
  with 2 digit_of_SomeD [of c d] show ?thesis
    by (intro exI [of _ "[c]"]) (auto simp: read_dec_def digit_value_def)
next
  case (3 c1 c2 cs)
  with assms obtain d1 where d1: "digit_of c1 = Some d1"
    by (auto split: option.splits)
  note b1 = digit_of_SomeD [OF d1]
  show ?thesis
  proof (cases "digit_of c2")
    case None
    with assms 3 d1 have "m = d1" "rest = c2 # cs" by auto
    with 3 d1 b1 show ?thesis
      by (intro exI [of _ "[c1]"]) (auto simp: read_dec_def digit_value_def)
  next
    case (Some d2)
    note b2 = digit_of_SomeD [OF Some]
    show ?thesis
    proof (cases "d1 \<le> 5")
      case True
      with assms 3 d1 Some have "m = 10 * d1 + d2" "rest = cs" by auto
      with 3 d1 Some b1 b2 True show ?thesis
        by (intro exI [of _ "[c1, c2]"]) (auto simp: read_dec_def digit_value_def)
    next
      case False
      with assms 3 d1 Some have "m = d1" "rest = c2 # cs" by auto
      with 3 d1 b1 show ?thesis
        by (intro exI [of _ "[c1]"]) (auto simp: read_dec_def digit_value_def)
    qed
  qed
qed

lemma parse_time_InrD:
  assumes "parse_time s = Inr t"
  shows "hour t \<le> 23" and "minute t \<le> 59" and "clock_minutes s = time_to_minutes t"
proof -
  from assms obtain h rest where H: "match_H s = Some (h, rest)"
    by (auto simp: parse_time_def split: option.splits)
  with assms obtain rest' where rest: "rest = CHR '':'' # rest'"
    by (auto simp: parse_time_def split: list.splits if_splits)
  with assms H obtain m where M: "match_M rest' = Some (m, [])" and t: "t = \<lparr>hour = h, minute = m\<rparr>"
    by (auto simp: parse_time_def split: option.splits if_splits)
  from match_H_SomeD [OF H] obtain hs
    where hs: "s = hs @ rest" "CHR '':'' \<notin> set hs" "read_dec hs = h" "h \<le> 23" by blast
  from match_M_SomeD [OF M] obtain ms
    where ms: "rest' = ms @ []" "read_dec ms = m" "m \<le> 59" by blast
  show "hour t \<le> 23" and "minute t \<le> 59" using t hs ms by simp_all
  have "s = hs @ '':'' @ ms" using hs rest ms by simp
  then show "clock_minutes s = time_to_minutes t"
    using clock_minutes_join [OF hs(2), of ms] hs ms t by (simp add: time_to_minutes_def)
qed




subsection \<open>Invariants of the loop and totality on well-formed routes\<close>

lemma loop_invariant_from:
  assumes step: "\<And>k s0 s1. i \<le> k \<Longrightarrow> k < n \<Longrightarrow> P k s0 \<Longrightarrow> body d st tt k s0 = Inr s1 \<Longrightarrow> P (Suc k) s1"
  shows "loop d st tt j n s = Inr sf \<Longrightarrow> i \<le> j \<Longrightarrow> j \<le> n \<Longrightarrow> P j s \<Longrightarrow> P n sf"
proof (induction "n - j" arbitrary: j s)
  case 0
  then have "j = n" by simp
  with 0 show ?case by (simp add: loop_done)
next
  case (Suc m)
  then have lt: "j < n" by simp
  with Suc.prems(1) obtain s1 where b: "body d st tt j s = Inr s1"
    and l: "loop d st tt (Suc j) n s1 = Inr sf"
    by (auto simp: loop_step split: sum.splits)
  have "P (Suc j) s1" using step [OF Suc.prems(2) lt Suc.prems(4) b] .
  moreover have "m = n - Suc j" using Suc.hyps(2) by simp
  ultimately show ?case
    using Suc.hyps(1) [of "Suc j" s1] l lt Suc.prems(2) by simp
qed

lemma loop_invariant:
  assumes "loop d st tt i n s = Inr sf" and "i \<le> n" and "P i s"
    and "\<And>k s0 s1. i \<le> k \<Longrightarrow> k < n \<Longrightarrow> P k s0 \<Longrightarrow> body d st tt k s0 = Inr s1 \<Longrightarrow> P (Suc k) s1"
  shows "P n sf"
  using loop_invariant_from [of i n P d st tt i s sf] assms by blast

lemma loop_total_from:
  assumes step: "\<And>k s0. i \<le> k \<Longrightarrow> k < n \<Longrightarrow> \<exists>s1. body d st tt k s0 = Inr s1"
  shows "i \<le> j \<Longrightarrow> \<exists>sf. loop d st tt j n s = Inr sf"
proof (induction "n - j" arbitrary: j s)
  case 0
  then show ?case by (simp add: loop_done)
next
  case (Suc m)
  then have lt: "j < n" by simp
  from step [OF Suc.prems lt] obtain s1 where b: "body d st tt j s = Inr s1" by blast
  have "m = n - Suc j" using Suc.hyps(2) by simp
  from Suc.hyps(1) [OF this, of s1] Suc.prems
  obtain sf where "loop d st tt (Suc j) n s1 = Inr sf" by auto
  with b lt show ?case by (simp add: loop_step)
qed

lemma last_scheduled_time_total:
  assumes "route_ok st tt" and "i \<le> length st"
  shows "\<exists>lst. last_scheduled_time tt i = Inr lst"
  using assms(2)
proof (induction i)
  case 0
  then show ?case by simp
next
  case (Suc i)
  then have i: "i < length st" by simp
  show ?case
  proof (cases "tt ! i = ''x''")
    case True
    with Suc route_ok_valid [OF assms(1) i] show ?thesis by simp
  next
    case False
    with route_ok_parse [OF assms(1) i] route_ok_valid [OF assms(1) i]
    show ?thesis by auto
  qed
qed

lemma body_total:
  assumes "route_ok st tt" and "i < length st"
  shows "\<exists>s1. body d st tt i s = Inr s1"
proof -
  note v = route_ok_valid [OF assms]
  show ?thesis
  proof (cases "tt ! i = ''x''")
    case True
    with v show ?thesis by (simp add: body_unserved)
  next
    case served: False
    show ?thesis
    proof (cases "get_travel_time d (length (calls s)) (last_used_stop s) (st ! i)")
      case None
      with v served show ?thesis by (simp add: body_failed)
    next
      case (Some travel)
      from route_ok_parse [OF assms served] obtain t where "parse_time (tt ! i) = Inr t" ..
      moreover from last_scheduled_time_total [OF assms(1), of i] assms(2)
      obtain lst where "last_scheduled_time tt i = Inr lst" by auto
      ultimately show ?thesis using v served Some by (simp add: body_served)
    qed
  qed
qed

lemma start_ok:
  assumes "route_ok st tt"
  shows "\<exists>t. parse_time (tt ! 0) = Inr t \<and>
    start st tt =
      Inr \<lparr>results = [\<lparr>Stop = st ! 0, Timetable = tt ! 0, Extra_Traffic = Num 0,
                        Predicted_Arrival = tt ! 0\<rparr>],
           last_used_stop = st ! 0, last_used_time = of_int (time_to_minutes t), calls = []\<rparr>"
proof -
  from assms have ne: "st \<noteq> []" "tt \<noteq> []" "tt ! 0 \<noteq> ''x''" "0 < length st"
    by (auto simp: route_ok_def)
  from route_ok_parse [OF assms ne(4) ne(3)] obtain t where "parse_time (tt ! 0) = Inr t" ..
  with ne show ?thesis by (simp add: start_def)
qed

lemma run_total:
  assumes "route_ok st tt"
  shows "\<exists>s0 sf. start st tt = Inr s0 \<and> loop d st tt 1 (length st) s0 = Inr sf \<and>
    predict_route_run d st tt = Inr sf"
proof -
  from start_ok [OF assms] obtain s0 where s0: "start st tt = Inr s0" by blast
  have "\<exists>sf. loop d st tt 1 (length st) s0 = Inr sf"
    by (rule loop_total_from [where i = 1]) (auto intro: body_total [OF assms])
  with s0 show ?thesis by (auto simp: predict_route_run_def)
qed

subsection \<open>The anchor, unserved entries and failed lookups\<close>

lemma body_results_prefix:
  assumes "body d st tt i s = Inr s1"
  shows "\<exists>rs. results s1 = results s @ rs"
  using assms
  by (auto simp: body_def Let_def split: if_splits option.splits sum.splits)

lemma loop_keeps_first_row:
  assumes "loop d st tt i n s = Inr sf" and "i \<le> n" and "results s \<noteq> []"
  shows "results sf \<noteq> [] \<and> hd (results sf) = hd (results s)"
proof (rule loop_invariant [OF assms(1,2), where P = "\<lambda>k s'. results s' \<noteq> [] \<and> hd (results s') = hd (results s)"])
  show "results s \<noteq> [] \<and> hd (results s) = hd (results s)" using assms(3) by simp
next
  fix k s0 s1
  assume "results s0 \<noteq> [] \<and> hd (results s0) = hd (results s)" and "body d st tt k s0 = Inr s1"
  then show "results s1 \<noteq> [] \<and> hd (results s1) = hd (results s)"
    using body_results_prefix [of d st tt k s0 s1] by auto
qed

text \<open>
  C4. On every well-formed route, whatever the lookup answers, the run returns rows, and the
  first row is the anchor: the first stop with its timetable entry, extra traffic 0, and the
  timetable entry itself as predicted arrival.
\<close>

theorem anchor_row_verbatim:
  assumes "route_ok stops timetable"
  shows "\<exists>rs. predict_route_times directions stops timetable = Inr rs \<and> rs \<noteq> [] \<and>
    hd rs = \<lparr>Stop = stops ! 0, Timetable = timetable ! 0, Extra_Traffic = Num 0,
             Predicted_Arrival = timetable ! 0\<rparr>"
proof -
  from run_total [OF assms, of directions] obtain s0 sf
    where s0: "start stops timetable = Inr s0"
      and l: "loop directions stops timetable 1 (length stops) s0 = Inr sf"
      and r: "predict_route_run directions stops timetable = Inr sf" by blast
  from start_ok [OF assms] s0
  have rs0: "results s0 = [\<lparr>Stop = stops ! 0, Timetable = timetable ! 0, Extra_Traffic = Num 0,
                           Predicted_Arrival = timetable ! 0\<rparr>]" by auto
  from assms have "1 \<le> length stops" by (cases stops) (auto simp: route_ok_def)
  from loop_keeps_first_row [OF l this] rs0
  have "results sf \<noteq> [] \<and> hd (results sf) = hd (results s0)" by simp
  with r rs0 show ?thesis by (simp add: predict_route_times_def)
qed

theorem anchor_row_verbatim_witness:
  "route_ok [''A'', ''B'', ''C''] [''07:00'', ''x'', ''07:45''] \<and>
   (\<exists>rs. predict_route_times (\<lambda>n a b. Raised) [''A'', ''B'', ''C''] [''07:00'', ''x'', ''07:45'']
            = Inr rs \<and> rs \<noteq> [] \<and>
          hd rs = \<lparr>Stop = ''A'', Timetable = ''07:00'', Extra_Traffic = Num 0,
                   Predicted_Arrival = ''07:00''\<rparr>)"
proof -
  have ok: "route_ok [''A'', ''B'', ''C''] [''07:00'', ''x'', ''07:45'']" by code_simp
  from anchor_row_verbatim [OF ok, of "\<lambda>n a b. Raised"] ok show ?thesis by simp
qed

text \<open>
  C5. An entry \<^verbatim>\<open>"x"\<close> after the anchor appends one row whose three columns are all
  \<^verbatim>\<open>"-"\<close>; the log of lookups, \<^verbatim>\<open>last_used_stop\<close> and \<^verbatim>\<open>last_used_time\<close> are as before.
\<close>

theorem unserved_entry_row_and_frame:
  assumes "1 \<le> i" and "i < length stops" and "i < length timetable"
    and "timetable ! i = ''x''"
  shows "\<exists>s'. body directions stops timetable i s = Inr s' \<and>
    results s' = results s @
      [\<lparr>Stop = stops ! i, Timetable = ''-'', Extra_Traffic = Text ''-'',
        Predicted_Arrival = ''-''\<rparr>] \<and>
    calls s' = calls s \<and> last_used_stop s' = last_used_stop s \<and>
    last_used_time s' = last_used_time s"
  using assms by (simp add: body_unserved)

theorem unserved_entry_row_and_frame_witness:
  "(1::nat) \<le> 1 \<and> 1 < length [''A'', ''B'', ''C''] \<and>
   1 < length [''07:00'', ''x'', ''07:45''] \<and> [''07:00'', ''x'', ''07:45''] ! 1 = ''x'' \<and>
   (\<exists>s'. body (\<lambda>n a b. Routes [Some 3000]) [''A'', ''B'', ''C''] [''07:00'', ''x'', ''07:45''] 1
            \<lparr>results = [], last_used_stop = ''A'', last_used_time = 420, calls = []\<rparr> = Inr s' \<and>
          results s' = [\<lparr>Stop = ''B'', Timetable = ''-'', Extra_Traffic = Text ''-'',
                         Predicted_Arrival = ''-''\<rparr>] \<and>
          calls s' = [] \<and> last_used_stop s' = ''A'' \<and> last_used_time s' = 420)"
  using unserved_entry_row_and_frame [of 1 "[''A'', ''B'', ''C'']" "[''07:00'', ''x'', ''07:45'']"
      "\<lambda>n a b. Routes [Some 3000]"
      "\<lparr>results = [], last_used_stop = ''A'', last_used_time = 420, calls = []\<rparr>"]
  by simp

text \<open>
  C3. When the lookup for a served entry after the anchor gives no result, the body
  returns normally, appends no row and leaves \<^verbatim>\<open>last_used_stop\<close> and \<^verbatim>\<open>last_used_time\<close>
  as they were; only the log records the call. The loop goes on with the next entry from
  that state.
\<close>

theorem failed_lookup_drops_entry:
  assumes "1 \<le> i" and "i < length stops" and "i < length timetable"
    and "timetable ! i \<noteq> ''x''"
    and "get_travel_time directions (length (calls s)) (last_used_stop s) (stops ! i) = None"
  shows "\<exists>s'. body directions stops timetable i s = Inr s' \<and>
    results s' = results s \<and> last_used_stop s' = last_used_stop s \<and>
    last_used_time s' = last_used_time s \<and>
    (i < n \<longrightarrow> loop directions stops timetable i n s =
                 loop directions stops timetable (Suc i) n s')"
  using assms by (simp add: body_failed loop_step)

theorem failed_lookup_drops_entry_witness:
  "(1::nat) \<le> 1 \<and> 1 < length [''A'', ''B'', ''C''] \<and>
   1 < length [''07:00'', ''07:20'', ''07:45''] \<and>
   [''07:00'', ''07:20'', ''07:45''] ! 1 \<noteq> ''x'' \<and>
   get_travel_time (\<lambda>n a b. if b = ''B'' then Raised else Routes [Some 3000]) 0 ''A'' ''B'' = None \<and>
   (\<exists>s'. body (\<lambda>n a b. if b = ''B'' then Raised else Routes [Some 3000])
            [''A'', ''B'', ''C''] [''07:00'', ''07:20'', ''07:45''] 1
            \<lparr>results = [], last_used_stop = ''A'', last_used_time = 420, calls = []\<rparr> = Inr s' \<and>
          results s' = [] \<and> last_used_stop s' = ''A'' \<and> last_used_time s' = 420 \<and>
          loop (\<lambda>n a b. if b = ''B'' then Raised else Routes [Some 3000])
            [''A'', ''B'', ''C''] [''07:00'', ''07:20'', ''07:45''] 1 3
            \<lparr>results = [], last_used_stop = ''A'', last_used_time = 420, calls = []\<rparr> =
          loop (\<lambda>n a b. if b = ''B'' then Raised else Routes [Some 3000])
            [''A'', ''B'', ''C''] [''07:00'', ''07:20'', ''07:45''] 2 3 s')"
proof -
  have g: "get_travel_time (\<lambda>n a b. if b = ''B'' then Raised else Routes [Some 3000]) 0 ''A'' ''B'' = None"
    by (simp add: get_travel_time_def)
  show ?thesis
    using failed_lookup_drops_entry [of 1 "[''A'', ''B'', ''C'']" "[''07:00'', ''07:20'', ''07:45'']"
      "\<lambda>n a b. if b = ''B'' then Raised else Routes [Some 3000]"
      "\<lparr>results = [], last_used_stop = ''A'', last_used_time = 420, calls = []\<rparr>" 3] g
    by (simp add: numeral_2_eq_2)
qed

subsection \<open>Served entries: predicted arrival and extra traffic\<close>




lemma time_to_minutes_nonneg: "0 \<le> time_to_minutes t"
  by (simp add: time_to_minutes_def)






subsection \<open>The whole run: lookups made and rows returned\<close>

lemma body_cases [consumes 3, case_names unserved failed served]:
  assumes "route_ok st tt" and "i < length st" and "body d st tt i s = Inr s1"
  obtains
    "tt ! i = ''x''"
    "s1 = s\<lparr>results := results s @
            [\<lparr>Stop = st ! i, Timetable = ''-'', Extra_Traffic = Text ''-'',
              Predicted_Arrival = ''-''\<rparr>]\<rparr>"
  | "tt ! i \<noteq> ''x''"
    "get_travel_time d (length (calls s)) (last_used_stop s) (st ! i) = None"
    "s1 = s\<lparr>calls := calls s @
            [\<lparr>entry = i, origin = last_used_stop s, destination = st ! i, answer = None\<rparr>]\<rparr>"
  | travel t lst where
    "tt ! i \<noteq> ''x''"
    "get_travel_time d (length (calls s)) (last_used_stop s) (st ! i) = Some travel"
    "parse_time (tt ! i) = Inr t"
    "last_scheduled_time tt i = Inr lst"
    "s1 = s\<lparr>calls := calls s @
              [\<lparr>entry = i, origin = last_used_stop s, destination = st ! i,
                answer = Some travel\<rparr>],
            results := results s @
              [\<lparr>Stop = st ! i, Timetable = tt ! i,
                Extra_Traffic = Num (round1
                  (case lst of
                     Some l \<Rightarrow> max 0 ((max (last_used_time s + travel) (of_int (time_to_minutes t))
                                       - last_used_time s) - of_int (time_to_minutes t - l))
                   | None \<Rightarrow> 0)),
                Predicted_Arrival =
                  minutes_to_time_str (max (last_used_time s + travel) (of_int (time_to_minutes t)))\<rparr>],
            last_used_stop := st ! i,
            last_used_time := max (last_used_time s + travel) (of_int (time_to_minutes t))\<rparr>"
proof -
  note v = route_ok_valid [OF assms(1,2)]
  show thesis
  proof (cases "tt ! i = ''x''")
    case True
    with v assms(3) that(1) show thesis by (simp add: body_unserved)
  next
    case served: False
    show thesis
    proof (cases "get_travel_time d (length (calls s)) (last_used_stop s) (st ! i)")
      case None
      with v served assms(3) that(2) show thesis by (simp add: body_failed)
    next
      case (Some travel)
      from route_ok_parse [OF assms(1,2) served] obtain t where t: "parse_time (tt ! i) = Inr t" ..
      from last_scheduled_time_total [OF assms(1), of i] assms(2)
      obtain lst where lst: "last_scheduled_time tt i = Inr lst" by auto
      from body_served [OF _ served Some t lst] v assms(3)
      show thesis using that(3) [OF served Some t lst] by simp
    qed
  qed
qed

lemma run_calls_log:
  assumes "route_ok st tt" and "predict_route_run d st tt = Inr sf"
  shows "map entry (calls sf) = filter (\<lambda>i. tt ! i \<noteq> ''x'') [1..<length st]"
    and "\<forall>k<length (calls sf). destination (calls sf ! k) = st ! entry (calls sf ! k) \<and>
           answer (calls sf ! k) =
             get_travel_time d k (origin (calls sf ! k)) (destination (calls sf ! k))"
proof -
  define P where "P = (\<lambda>k (s::proj_state). map entry (calls s) = filter (\<lambda>i. tt ! i \<noteq> ''x'') [1..<k] \<and>
    (\<forall>m<length (calls s). destination (calls s ! m) = st ! entry (calls s ! m) \<and>
       answer (calls s ! m) = get_travel_time d m (origin (calls s ! m)) (destination (calls s ! m))))"
  from run_total [OF assms(1), of d] assms(2) obtain s0
    where s0: "start st tt = Inr s0" and l: "loop d st tt 1 (length st) s0 = Inr sf" by auto
  from start_ok [OF assms(1)] s0 have c0: "calls s0 = []" by auto
  from assms(1) have n: "1 \<le> length st" by (cases st) (auto simp: route_ok_def)
  have "P (length st) sf"
  proof (rule loop_invariant [OF l n])
    show "P 1 s0" by (simp add: P_def c0)
  next
    fix k s1 s2
    assume k: "1 \<le> k" "k < length st" and P: "P k s1" and b: "body d st tt k s1 = Inr s2"
    from assms(1) k(2) b show "P (Suc k) s2"
    proof (cases rule: body_cases)
      case unserved
      with P k show ?thesis by (simp add: P_def)
    next
      case failed
      with P k show ?thesis by (auto simp: P_def nth_append less_Suc_eq)
    next
      case (served travel t lst)
      with P k show ?thesis by (auto simp: P_def nth_append less_Suc_eq)
    qed
  qed
  then show "map entry (calls sf) = filter (\<lambda>i. tt ! i \<noteq> ''x'') [1..<length st]"
    and "\<forall>k<length (calls sf). destination (calls sf ! k) = st ! entry (calls sf ! k) \<and>
           answer (calls sf ! k) =
             get_travel_time d k (origin (calls sf ! k)) (destination (calls sf ! k))"
    by (simp_all add: P_def)
qed

text \<open>
  C8. On a well-formed route the run returns, and its lookups are, in order, exactly one for
  each entry after the anchor that is not \<^verbatim>\<open>"x"\<close>, with that entry's stop as destination: no
  lookup for an entry \<^verbatim>\<open>"x"\<close>, none for the anchor, none repeated. The logged answer of the
  \<open>k\<close>-th lookup is what the client returned for it.
\<close>

theorem one_lookup_per_served_entry:
  assumes "route_ok stops timetable"
  shows "\<exists>sf. predict_route_run directions stops timetable = Inr sf \<and>
    map entry (calls sf) = filter (\<lambda>i. timetable ! i \<noteq> ''x'') [1..<length stops] \<and>
    distinct (map entry (calls sf)) \<and>
    (\<forall>k<length (calls sf). destination (calls sf ! k) = stops ! entry (calls sf ! k) \<and>
       answer (calls sf ! k) =
         get_travel_time directions k (origin (calls sf ! k)) (destination (calls sf ! k)))"
proof -
  from run_total [OF assms, of directions] obtain sf
    where r: "predict_route_run directions stops timetable = Inr sf" by blast
  note log = run_calls_log [OF assms r]
  have "distinct (map entry (calls sf))" unfolding log(1) by simp
  with r log show ?thesis by blast
qed

theorem one_lookup_per_served_entry_witness:
  "route_ok [''A'', ''B'', ''C'', ''D''] [''07:00'', ''x'', ''07:45'', ''08:00''] \<and>
   (\<exists>sf. predict_route_run (\<lambda>n a b. if b = ''C'' then Raised else Routes [Some 3000])
            [''A'', ''B'', ''C'', ''D''] [''07:00'', ''x'', ''07:45'', ''08:00''] = Inr sf \<and>
          map entry (calls sf) = [2, 3])"
proof -
  have ok: "route_ok [''A'', ''B'', ''C'', ''D''] [''07:00'', ''x'', ''07:45'', ''08:00'']"
    by code_simp
  have f: "filter (\<lambda>i. [''07:00'', ''x'', ''07:45'', ''08:00''] ! i \<noteq> ''x'')
             [1..<length [''A'', ''B'', ''C'', ''D'']] = [2, 3]"
    by code_simp
  from one_lookup_per_served_entry [OF ok, of "\<lambda>n a b. if b = ''C'' then Raised else Routes [Some 3000]"]
  obtain sf where "predict_route_run (\<lambda>n a b. if b = ''C'' then Raised else Routes [Some 3000])
            [''A'', ''B'', ''C'', ''D''] [''07:00'', ''x'', ''07:45'', ''08:00''] = Inr sf"
    and "map entry (calls sf) = [2, 3]"
    unfolding f by (elim exE conjE)
  then show ?thesis using ok by (intro conjI exI [of _ sf])
qed


lemma failed_entries_snoc:
  "failed_entries (cs @ [c]) = failed_entries cs @ (if answer c = None then [entry c] else [])"
  by (simp add: failed_entries_def)

lemma run_rows_invariant:
  assumes "route_ok st tt" and "predict_route_run d st tt = Inr sf"
  shows "map row_key (results sf) =
      map (entry_key st tt) (filter (\<lambda>i. i \<notin> set (failed_entries (calls sf))) [0..<length st])"
    and "length (results sf) + length (failed_entries (calls sf)) = length st"
proof -
  define P where "P = (\<lambda>k (s::proj_state).
    map row_key (results s) =
      map (entry_key st tt) (filter (\<lambda>i. i \<notin> set (failed_entries (calls s))) [0..<k]) \<and>
    length (results s) + length (failed_entries (calls s)) = k \<and>
    (\<forall>i\<in>set (failed_entries (calls s)). i < k))"
  from run_total [OF assms(1), of d] assms(2) obtain s0
    where s0: "start st tt = Inr s0" and l: "loop d st tt 1 (length st) s0 = Inr sf" by auto
  from start_ok [OF assms(1)] s0 have c0: "calls s0 = []"
    and r0: "results s0 = [\<lparr>Stop = st ! 0, Timetable = tt ! 0, Extra_Traffic = Num 0,
                          Predicted_Arrival = tt ! 0\<rparr>]" by auto
  from assms(1) have n: "1 \<le> length st" and x0: "tt ! 0 \<noteq> ''x''"
    by (cases st; auto simp: route_ok_def)+
  have "P (length st) sf"
  proof (rule loop_invariant [OF l n])
    show "P 1 s0"
      using x0 by (simp add: P_def c0 r0 failed_entries_def row_key_def entry_key_def)
  next
    fix k s1 s2
    assume k: "1 \<le> k" "k < length st" and P: "P k s1" and b: "body d st tt k s1 = Inr s2"
    from P have rows: "map row_key (results s1) =
        map (entry_key st tt) (filter (\<lambda>i. i \<notin> set (failed_entries (calls s1))) [0..<k])"
      and len: "length (results s1) + length (failed_entries (calls s1)) = k"
      and old: "\<forall>i\<in>set (failed_entries (calls s1)). i < k"
      by (simp_all add: P_def)
    from old have fresh: "k \<notin> set (failed_entries (calls s1))" by auto
    from assms(1) k(2) b show "P (Suc k) s2"
    proof (cases rule: body_cases)
      case unserved
      with rows len old fresh show ?thesis
        by (auto simp: P_def row_key_def entry_key_def less_Suc_eq)
    next
      case failed
      have "filter (\<lambda>i. i \<noteq> k \<and> i \<notin> set (failed_entries (calls s1))) [0..<k] =
            filter (\<lambda>i. i \<notin> set (failed_entries (calls s1))) [0..<k]"
        by (rule filter_cong) auto
      with failed rows len old show ?thesis
        by (auto simp: P_def failed_entries_snoc less_Suc_eq)
    next
      case (served travel t lst)
      with rows len old fresh show ?thesis
        by (auto simp: P_def failed_entries_snoc row_key_def entry_key_def less_Suc_eq)
    qed
  qed
  then show "map row_key (results sf) =
      map (entry_key st tt) (filter (\<lambda>i. i \<notin> set (failed_entries (calls sf))) [0..<length st])"
    and "length (results sf) + length (failed_entries (calls sf)) = length st"
    by (simp_all add: P_def)
qed

text \<open>
  C7. On a well-formed route the run returns its rows in the order of the entries: the stop
  and timetable columns of the rows are those of the entries \<open>0, ..., len(stops) - 1\<close>, leaving
  out exactly the entries at which a lookup failed. Those are served entries after the anchor
  whose logged answer, which is the answer of the client, is no result. So the number of rows
  plus the number of failed lookups is the number of entries, and when no lookup fails (in
  particular on a route of served entries whose lookups all succeed) there is one row for
  each entry.
\<close>

theorem rows_are_entries_minus_failed_lookups:
  assumes "route_ok stops timetable"
  shows "\<exists>sf. predict_route_run directions stops timetable = Inr sf \<and>
    predict_route_times directions stops timetable = Inr (results sf) \<and>
    map row_key (results sf) =
      map (entry_key stops timetable)
        (filter (\<lambda>i. i \<notin> set (failed_entries (calls sf))) [0..<length stops]) \<and>
    length (results sf) + length (failed_entries (calls sf)) = length stops \<and>
    (\<forall>i\<in>set (failed_entries (calls sf)). 1 \<le> i \<and> i < length stops \<and> timetable ! i \<noteq> ''x'') \<and>
    (\<forall>k<length (calls sf). answer (calls sf ! k) =
         get_travel_time directions k (origin (calls sf ! k)) (stops ! entry (calls sf ! k))) \<and>
    ((\<forall>c\<in>set (calls sf). answer c \<noteq> None) \<longrightarrow> length (results sf) = length stops)"
proof -
  from run_total [OF assms, of directions] obtain sf
    where r: "predict_route_run directions stops timetable = Inr sf" by blast
  note log = run_calls_log [OF assms r]
  note rows = run_rows_invariant [OF assms r]
  have "set (failed_entries (calls sf)) \<subseteq> set (map entry (calls sf))"
    by (auto simp: failed_entries_def)
  then have sub: "\<forall>i\<in>set (failed_entries (calls sf)). 1 \<le> i \<and> i < length stops \<and> timetable ! i \<noteq> ''x''"
    unfolding log(1) by auto
  have ans: "\<forall>k<length (calls sf). answer (calls sf ! k) =
         get_travel_time directions k (origin (calls sf ! k)) (stops ! entry (calls sf ! k))"
    using log(2) by simp
  have "failed_entries (calls sf) = []" if "\<forall>c\<in>set (calls sf). answer c \<noteq> None"
    using that by (simp add: failed_entries_def filter_empty_conv)
  with rows(2) have full: "(\<forall>c\<in>set (calls sf). answer c \<noteq> None) \<longrightarrow> length (results sf) = length stops"
    by auto
  have "predict_route_times directions stops timetable = Inr (results sf)"
    using r by (simp add: predict_route_times_def)
  with r rows sub ans full show ?thesis by (intro exI [of _ sf] conjI)
qed

theorem rows_are_entries_minus_failed_lookups_witness:
  "route_ok [''A'', ''B'', ''C'', ''D''] [''07:00'', ''x'', ''07:45'', ''08:00''] \<and>
   (\<exists>sf. predict_route_run (\<lambda>n a b. if b = ''C'' then Raised else Routes [Some 3000])
            [''A'', ''B'', ''C'', ''D''] [''07:00'', ''x'', ''07:45'', ''08:00''] = Inr sf \<and>
          failed_entries (calls sf) = [2] \<and>
          map row_key (results sf) = [(''A'', ''07:00''), (''B'', ''-''), (''D'', ''08:00'')] \<and>
          length (results sf) + length (failed_entries (calls sf)) = 4)"
proof -
  let ?d = "\<lambda>(n::nat) (a::string) (b::string). if b = ''C'' then Raised else Routes [Some 3000]"
  let ?st = "[''A'', ''B'', ''C'', ''D'']"
  let ?tt = "[''07:00'', ''x'', ''07:45'', ''08:00'']"
  have ok: "route_ok ?st ?tt" by code_simp
  from rows_are_entries_minus_failed_lookups [OF ok, of ?d]
  obtain sf where r: "predict_route_run ?d ?st ?tt = Inr sf"
    and k: "map row_key (results sf) =
      map (entry_key ?st ?tt) (filter (\<lambda>i. i \<notin> set (failed_entries (calls sf))) [0..<length ?st])"
    and n: "length (results sf) + length (failed_entries (calls sf)) = length ?st"
    by (elim exE conjE)
  have "(case predict_route_run ?d ?st ?tt of Inl e \<Rightarrow> [] | Inr s \<Rightarrow> failed_entries (calls s)) = [2]"
    by code_simp
  with r have f: "failed_entries (calls sf) = [2]" by simp
  have "map (entry_key ?st ?tt) (filter (\<lambda>i. i \<notin> set [2]) [0..<length ?st]) =
    [(''A'', ''07:00''), (''B'', ''-''), (''D'', ''08:00'')]"
    by code_simp
  with k f have "map row_key (results sf) = [(''A'', ''07:00''), (''B'', ''-''), (''D'', ''08:00'')]"
    by simp
  with ok r f n show ?thesis by (intro conjI exI [of _ sf]) simp_all
qed

subsection \<open>Round trip: lookups that answer the scheduled legs\<close>






subsection \<open>Monotonicity of the predicted arrivals\<close>

lemma body_last_used_time_mono:
  assumes nonneg: "\<forall>k a b t. get_travel_time d k a b = Some t \<longrightarrow> 0 \<le> t"
    and b: "body d st tt i s = Inr s1"
  shows "last_used_time s \<le> last_used_time s1"
proof (cases "get_travel_time d (length (calls s)) (last_used_stop s) (st ! i)")
  case None
  with b show ?thesis
    by (auto simp: body_def Let_def split: if_splits)
next
  case (Some travel)
  with nonneg have "0 \<le> travel" by blast
  with b Some show ?thesis
    by (auto simp: body_def Let_def le_max_iff_disj split: if_splits sum.splits)
qed

lemma predicted_minutes_snoc:
  "predicted_minutes (rs @ [r]) =
     predicted_minutes rs @ (if served_row r then [clock_minutes (Predicted_Arrival r)] else [])"
  by (simp add: predicted_minutes_def)

lemma run_predicted_sorted:
  assumes ok: "route_ok st tt"
    and nonneg: "\<forall>k a b t. get_travel_time d k a b = Some t \<longrightarrow> 0 \<le> t"
    and run: "predict_route_run d st tt = Inr sf"
  shows "sorted (predicted_minutes (results sf))"
proof -
  define P where "P = (\<lambda>(k::nat) (s::proj_state).
    0 \<le> last_used_time s \<and> sorted (predicted_minutes (results s)) \<and>
    (\<forall>m\<in>set (predicted_minutes (results s)). of_int m \<le> last_used_time s))"
  from run_total [OF ok, of d] run obtain s0
    where s0: "start st tt = Inr s0" and l: "loop d st tt 1 (length st) s0 = Inr sf" by auto
  from start_ok [OF ok] s0 obtain t0 where t0: "parse_time (tt ! 0) = Inr t0"
    and s0_eq: "s0 = \<lparr>results = [\<lparr>Stop = st ! 0, Timetable = tt ! 0, Extra_Traffic = Num 0,
                        Predicted_Arrival = tt ! 0\<rparr>],
           last_used_stop = st ! 0, last_used_time = of_int (time_to_minutes t0), calls = []\<rparr>"
    by auto
  from ok have n: "1 \<le> length st" by (cases st) (auto simp: route_ok_def)
  have "P (length st) sf"
  proof (rule loop_invariant [OF l n])
    show "P 1 s0"
      unfolding P_def s0_eq
      using parse_time_InrD(3) [OF t0] time_to_minutes_nonneg [of t0]
      by (simp add: predicted_minutes_def)
  next
    fix k s1 s2
    assume k: "1 \<le> k" "k < length st" and P: "P k s1" and b: "body d st tt k s1 = Inr s2"
    from P have pos: "0 \<le> last_used_time s1" and srt: "sorted (predicted_minutes (results s1))"
      and bound: "\<forall>m\<in>set (predicted_minutes (results s1)). of_int m \<le> last_used_time s1"
      by (simp_all add: P_def)
    note mono = body_last_used_time_mono [OF nonneg b]
    from ok k(2) b show "P (Suc k) s2"
    proof (cases rule: body_cases)
      case unserved
      with pos srt bound show ?thesis
        by (simp add: P_def predicted_minutes_snoc served_row_def)
    next
      case failed
      with pos srt bound show ?thesis by (simp add: P_def)
    next
      case (served travel t lst)
      define a where "a = max (last_used_time s1 + travel) (of_int (time_to_minutes t))"
      have la: "last_used_time s2 = a" by (simp add: served(5) a_def)
      with mono pos have a0: "0 \<le> a" and up: "last_used_time s1 \<le> a" by simp_all
      have cm: "clock_minutes (minutes_to_time_str a) = \<lfloor>a\<rfloor>"
        using a0 by (rule clock_minutes_render)
      have old: "m \<le> \<lfloor>a\<rfloor> \<and> of_int m \<le> a" if "m \<in> set (predicted_minutes (results s1))" for m
      proof -
        from bound that up have "of_int m \<le> a" by force
        then show ?thesis by (simp add: le_floor_iff)
      qed
      obtain x where rs: "results s2 = results s1 @
          [\<lparr>Stop = st ! k, Timetable = tt ! k, Extra_Traffic = x,
            Predicted_Arrival = minutes_to_time_str a\<rparr>]"
        by (simp add: served(5) a_def)
      have "sorted (predicted_minutes (results s2))"
        using srt old by (auto simp: rs predicted_minutes_snoc sorted_append cm)
      moreover have "\<forall>m\<in>set (predicted_minutes (results s2)). of_int m \<le> last_used_time s2"
        using old by (auto simp: rs la predicted_minutes_snoc cm)
      ultimately show ?thesis using a0 la by (simp add: P_def)
    qed
  qed
  then show ?thesis by (simp add: P_def)
qed

text \<open>
  C10. If every answer of the lookup is a non-negative duration, no execution of the loop
  body lowers \<^verbatim>\<open>last_used_time\<close>, and on a well-formed route the predicted arrivals of the
  rows of served entries, read in minutes in the order of the rows, never decrease.
\<close>

theorem predicted_arrivals_nondecreasing:
  assumes "route_ok stops timetable"
    and "\<forall>k a b t. get_travel_time directions k a b = Some t \<longrightarrow> 0 \<le> t"
  shows "(\<forall>i s s'. body directions stops timetable i s = Inr s' \<longrightarrow>
            last_used_time s \<le> last_used_time s') \<and>
    (\<exists>rs. predict_route_times directions stops timetable = Inr rs \<and>
           sorted (predicted_minutes rs))"
proof -
  from run_total [OF assms(1), of directions] obtain sf
    where r: "predict_route_run directions stops timetable = Inr sf" by blast
  from run_predicted_sorted [OF assms r] r
  have "\<exists>rs. predict_route_times directions stops timetable = Inr rs \<and>
           sorted (predicted_minutes rs)"
    by (simp add: predict_route_times_def)
  moreover have "\<forall>i s s'. body directions stops timetable i s = Inr s' \<longrightarrow>
            last_used_time s \<le> last_used_time s'"
    using body_last_used_time_mono [OF assms(2)] by blast
  ultimately show ?thesis by blast
qed

theorem predicted_arrivals_nondecreasing_witness:
  "route_ok [''A'', ''B'', ''C'', ''D''] [''07:00'', ''x'', ''07:45'', ''07:50''] \<and>
   (\<exists>rs. predict_route_times (\<lambda>n a b. Routes [Some 3030]) [''A'', ''B'', ''C'', ''D'']
            [''07:00'', ''x'', ''07:45'', ''07:50''] = Inr rs \<and>
      predicted_minutes rs = [420, 470, 521] \<and> sorted (predicted_minutes rs))"
proof -
  let ?d = "\<lambda>(n::nat) (a::string) (b::string). Routes [Some 3030]"
  let ?st = "[''A'', ''B'', ''C'', ''D'']"
  let ?tt = "[''07:00'', ''x'', ''07:45'', ''07:50'']"
  have ok: "route_ok ?st ?tt" by code_simp
  have g: "\<forall>k a b t. get_travel_time ?d k a b = Some t \<longrightarrow> 0 \<le> t"
    by (simp add: get_travel_time_def)
  from predicted_arrivals_nondecreasing [OF ok g]
  obtain rs where r: "predict_route_times ?d ?st ?tt = Inr rs" and s: "sorted (predicted_minutes rs)"
    by (elim exE conjE)
  have "(case predict_route_times ?d ?st ?tt of Inl e \<Rightarrow> [] | Inr rs \<Rightarrow> predicted_minutes rs) =
    [420, 470, 521]"
    by code_simp
  with r have "predicted_minutes rs = [420, 470, 521]" by simp
  with ok r s show ?thesis by (intro conjI exI [of _ rs])
qed

section \<open>Properties of the stop extraction\<close>






















end
